theory Spec2Isabelle
  imports Complex_Main "HOL-Library.Char_ord" "HOL-Library.List_Lexorder" "HOL-Library.Sublist"
    "HOL-Library.AList"
begin

section \<open>Strings as the JavaScript front end uses them\<close>

text \<open>
  The deduplication, matching and history-merging logic of the price tracker lives in
  the React component (\<^verbatim>\<open>handleSearchPreview\<close>, \<^verbatim>\<open>handleVariantSelected\<close> and
  \<^verbatim>\<open>fetchGroupPriceHistory\<close>).  Names, model codes and dates are JavaScript strings;
  they are modelled as \<^typ>\<open>string\<close> holding ASCII text, one \<^typ>\<open>char\<close> per code
  unit.  On such text \<^verbatim>\<open>toLowerCase\<close> maps \<^verbatim>\<open>A-Z\<close> to \<^verbatim>\<open>a-z\<close>, the regular
  expression class \<^verbatim>\<open>\s\<close> and \<^verbatim>\<open>trim\<close> recognise tab, line feed, vertical tab,
  form feed, carriage return and space, and \<^verbatim>\<open>\d\<close> recognises \<^verbatim>\<open>0-9\<close>.
\<close>

definition is_space :: "char \<Rightarrow> bool" where
  "is_space c = ((of_char c :: nat) \<in> {9, 10, 11, 12, 13, 32})"

definition is_digit :: "char \<Rightarrow> bool" where
  "is_digit c = (48 \<le> (of_char c :: nat) \<and> (of_char c :: nat) \<le> 57)"

definition lower_char :: "char \<Rightarrow> char" where
  "lower_char c =
     (if 65 \<le> (of_char c :: nat) \<and> (of_char c :: nat) \<le> 90
      then char_of ((of_char c :: nat) + 32) else c)"

definition toLowerCase :: "string \<Rightarrow> string" where
  "toLowerCase s = map lower_char s"

definition trim :: "string \<Rightarrow> string" where
  "trim s = rev (dropWhile is_space (rev (dropWhile is_space s)))"

text \<open>
  \<^verbatim>\<open>s.split(/[...]+/)\<close>: the pieces between maximal runs of delimiter characters.
  A delimiter at the very start or end leaves an empty piece there, and the empty
  string splits into one empty piece, as in JavaScript.
\<close>

fun split_runs :: "(char \<Rightarrow> bool) \<Rightarrow> string \<Rightarrow> string list" where
  "split_runs P [] = [[]]"
| "split_runs P (c # cs) =
     (if P c then (if cs \<noteq> [] \<and> P (hd cs) then split_runs P cs else [] # split_runs P cs)
      else (case split_runs P cs of
              [] \<Rightarrow> [[c]]
            | w # ws \<Rightarrow> (c # w) # ws))"

text \<open>\<^verbatim>\<open>xs.join(sep)\<close>\<close>

fun join :: "string \<Rightarrow> string list \<Rightarrow> string" where
  "join sep [] = []"
| "join sep [x] = x"
| "join sep (x # y # ys) = x @ sep @ join sep (y # ys)"

section \<open>Raw listings\<close>

text \<open>
  A product of the search result.  \<^verbatim>\<open>model\<close> and \<^verbatim>\<open>brand\<close> may be absent
  (\<^verbatim>\<open>null\<close>); the name is a string.
\<close>

record product =
  retailer :: string
  name :: string
  brand :: "string option"
  model :: "string option"
  price :: rat
  url :: string

section \<open>Identity Resolver (\<^verbatim>\<open>handleSearchPreview\<close>)\<close>

definition TIER_WORDS :: "string list" where
  "TIER_WORDS = [''pro'', ''max'', ''plus'', ''ultra'', ''mini'', ''lite'', ''se'', ''air'']"

definition COLOR_WORDS :: "string list" where
  "COLOR_WORDS = [''black'', ''white'', ''silver'', ''gold'', ''grey'', ''gray'', ''blue'',
     ''red'', ''green'', ''pink'', ''purple'', ''midnight'', ''starlight'', ''titanium'',
     ''graphite'', ''space'']"

definition FILLER_WORDS :: "string list" where
  "FILLER_WORDS = [''the'', ''and'', ''with'', ''for'', ''in'', ''new'', ''nz'', ''wifi'',
     ''wi-fi'']"

text \<open>
  The storage pattern \<^verbatim>\<open>\d+\s*[gt]b\<close> (flag \<^verbatim>\<open>i\<close>) tried at the head of a string:
  digits, then white space, then \<^verbatim>\<open>g\<close> or \<^verbatim>\<open>t\<close>, then \<^verbatim>\<open>b\<close>.  Both repetitions
  are greedy and giving characters back never helps (the next character would again be
  a digit or a space), so the match is deterministic.  The result is the matched text.
\<close>

definition is_gt :: "char \<Rightarrow> bool" where
  "is_gt c = (c = CHR ''g'' \<or> c = CHR ''t'' \<or> c = CHR ''G'' \<or> c = CHR ''T'')"

definition is_b :: "char \<Rightarrow> bool" where
  "is_b c = (c = CHR ''b'' \<or> c = CHR ''B'')"

definition storageAt :: "string \<Rightarrow> string option" where
  "storageAt s =
     (let ds = takeWhile is_digit s; r1 = dropWhile is_digit s;
          ws = takeWhile is_space r1; r2 = dropWhile is_space r1
      in if ds = [] then None
         else (case r2 of
                 c1 # c2 # _ \<Rightarrow> if is_gt c1 \<and> is_b c2 then Some (ds @ ws @ [c1, c2]) else None
               | _ \<Rightarrow> None))"

text \<open>\<^verbatim>\<open>name.match(/(\d+\s*[gt]b)/i)\<close>: the leftmost match, or none.\<close>

fun storageMatch :: "string \<Rightarrow> string option" where
  "storageMatch [] = None"
| "storageMatch (c # cs) =
     (case storageAt (c # cs) of Some m \<Rightarrow> Some m | None \<Rightarrow> storageMatch cs)"

text \<open>\<^verbatim>\<open>/^\d+\s*[gt]b$/i.test(w)\<close>: the whole word is a storage size.\<close>

definition isStorageWord :: "string \<Rightarrow> bool" where
  "isStorageWord w = (storageAt w = Some w)"

definition storageOf :: "string \<Rightarrow> string" where
  "storageOf nm =
     (case storageMatch nm of Some m \<Rightarrow> filter (\<lambda>c. \<not> is_space c) m | None \<Rightarrow> [])"

definition nameDelim :: "char \<Rightarrow> bool" where
  "nameDelim c = (is_space c \<or> c = CHR ''-'' \<or> c = CHR ''/'' \<or> c = CHR '','')"

definition nameWords :: "string \<Rightarrow> string list" where
  "nameWords nm = split_runs nameDelim nm"

definition tierWordsOf :: "string \<Rightarrow> string list" where
  "tierWordsOf nm = filter (\<lambda>w. w \<in> set TIER_WORDS) (nameWords nm)"

definition tiersOf :: "string \<Rightarrow> string" where
  "tiersOf nm = join ''-'' (sort (tierWordsOf nm))"

definition coreWordsOf :: "string \<Rightarrow> string" where
  "coreWordsOf nm =
     join ''-'' (take 4 (filter (\<lambda>w. length w > 1 \<and> w \<notin> set COLOR_WORDS \<and>
        w \<notin> set TIER_WORDS \<and> w \<notin> set FILLER_WORDS \<and> \<not> isStorageWord w) (nameWords nm)))"

text \<open>\<^verbatim>\<open>product.model && product.model.trim()\<close>: present, and not empty once trimmed.\<close>

definition hasModel :: "product \<Rightarrow> bool" where
  "hasModel p = (case model p of None \<Rightarrow> False | Some m \<Rightarrow> m \<noteq> [] \<and> trim m \<noteq> [])"

text \<open>The key built from the name, when there is no model code.\<close>

definition nameKey :: "string \<Rightarrow> string" where
  "nameKey n =
     (let nm = toLowerCase n
      in join ''|'' (filter (\<lambda>s. s \<noteq> []) [coreWordsOf nm, tiersOf nm, storageOf nm]))"

definition getProductIdentityKey :: "product \<Rightarrow> string" where
  "getProductIdentityKey p =
     (case model p of
        Some m \<Rightarrow> if m \<noteq> [] \<and> trim m \<noteq> [] then trim (toLowerCase m) else nameKey (name p)
      | None \<Rightarrow> nameKey (name p))"

text \<open>
  The deduplication loop: \<^verbatim>\<open>seen\<close> is the set of keys met so far,
  \<^verbatim>\<open>uniqueProducts\<close> the list being built.
\<close>

fun dedup :: "string set \<Rightarrow> product list \<Rightarrow> product list \<Rightarrow> product list" where
  "dedup seen uniqueProducts [] = uniqueProducts"
| "dedup seen uniqueProducts (p # ps) =
     (let key = getProductIdentityKey p
      in if key \<notin> seen then dedup (insert key seen) (uniqueProducts @ [p]) ps
         else dedup seen uniqueProducts ps)"

definition resolve :: "product list \<Rightarrow> product list" where
  "resolve products = dedup {} [] products"

section \<open>Retailer Matcher (\<^verbatim>\<open>handleVariantSelected\<close>)\<close>

text \<open>
  A JavaScript \<^verbatim>\<open>Set\<close> built from an array keeps each element once, in the order of
  first insertion: a duplicate-free list.  \<^verbatim>\<open>size\<close> is its length, \<^verbatim>\<open>has\<close> is
  membership.
\<close>

definition newSet :: "'a list \<Rightarrow> 'a list" where
  "newSet xs = rev (remdups (rev xs))"

text \<open>Strategy 1: the listings that carry the chosen variant's model code.\<close>

definition modelMatches :: "product \<Rightarrow> product \<Rightarrow> bool" where
  "modelMatches variant p =
     (case model p of
        None \<Rightarrow> False
      | Some pm \<Rightarrow>
          if pm \<noteq> [] \<and> trim pm \<noteq> []
          then (case model variant of
                  None \<Rightarrow> False
                | Some vm \<Rightarrow> toLowerCase pm = toLowerCase vm)
          else False)"

text \<open>
  Strategy 2 declares its own tier vocabulary, its own stop words and its own
  tokenisation (white space and hyphen only).
\<close>

definition TIER_WORDS_fuzzy :: "string list" where
  "TIER_WORDS_fuzzy = [''pro'', ''max'', ''plus'', ''ultra'', ''mini'', ''lite'', ''se'', ''air'',
     ''standard'', ''basic'']"

definition STOP_WORDS :: "string list" where
  "STOP_WORDS = [''the'', ''and'', ''with'', ''for'', ''in'']"

definition fuzzyDelim :: "char \<Rightarrow> bool" where
  "fuzzyDelim c = (is_space c \<or> c = CHR ''-'')"

definition extractKeyWords :: "string \<Rightarrow> string list" where
  "extractKeyWords n =
     newSet (filter (\<lambda>word. length word > 0 \<and> word \<notin> set STOP_WORDS)
       (split_runs fuzzyDelim
          (filter (\<lambda>c. c \<noteq> CHR ''('' \<and> c \<noteq> CHR '')'') (toLowerCase n))))"

definition extractTierWords :: "string \<Rightarrow> string list" where
  "extractTierWords n =
     newSet (filter (\<lambda>w. w \<in> set TIER_WORDS_fuzzy) (split_runs fuzzyDelim (toLowerCase n)))"

text \<open>\<^verbatim>\<open>Array.from(tierWords).sort().join(',')\<close>\<close>

definition tierStr :: "string list \<Rightarrow> string" where
  "tierStr tierWords = join '','' (sort tierWords)"

definition hasDigit :: "string \<Rightarrow> bool" where
  "hasDigit w = list_ex is_digit w"

definition missingWords :: "string list \<Rightarrow> string list \<Rightarrow> string list" where
  "missingWords variantKeyWords productKeyWords =
     filter (\<lambda>w. w \<notin> set productKeyWords) variantKeyWords"

definition significantMissing :: "string list \<Rightarrow> string list \<Rightarrow> string list" where
  "significantMissing variantKeyWords productKeyWords =
     filter (\<lambda>w. length w > 3 \<or> hasDigit w) (missingWords variantKeyWords productKeyWords)"

definition intersection :: "string list \<Rightarrow> string list \<Rightarrow> string list" where
  "intersection variantKeyWords productKeyWords =
     newSet (filter (\<lambda>x. x \<in> set productKeyWords) variantKeyWords)"

text \<open>
  The similarity is the quotient of two set sizes, computed in double precision and
  compared with the literal \<^verbatim>\<open>0.4\<close>.  A quotient of two non-negative integers is a
  rational number, positive infinity (\<^verbatim>\<open>n / 0\<close> with \<^verbatim>\<open>n > 0\<close>) or
  \<^verbatim>\<open>NaN\<close> (\<^verbatim>\<open>0 / 0\<close>); every comparison with \<^verbatim>\<open>NaN\<close> is false.  For
  a finite quotient \<open>i / m\<close> the double-precision test agrees with the exact one:
  the division is correctly rounded and rounding is monotone, \<^verbatim>\<open>0.4\<close> is the double
  nearest to \<open>2 / 5\<close>, and a quotient below \<open>2 / 5\<close> lies at least \<open>1 / (5 m)\<close>
  below it, far more than the spacing of doubles for any size a set of words can have.
\<close>

datatype number = Num rat | Infinity | NaN

definition divide :: "nat \<Rightarrow> nat \<Rightarrow> number" where
  "divide i m = (if m = 0 then (if i = 0 then NaN else Infinity) else Num (of_nat i / of_nat m))"

definition similarity :: "string list \<Rightarrow> string list \<Rightarrow> number" where
  "similarity variantKeyWords productKeyWords =
     divide (length (intersection variantKeyWords productKeyWords))
       (max (length variantKeyWords) (length productKeyWords))"

fun atLeastThreshold :: "number \<Rightarrow> bool" where
  "atLeastThreshold (Num q) = (q \<ge> 4 / 10)"
| "atLeastThreshold Infinity = True"
| "atLeastThreshold NaN = False"

definition fuzzyMatches :: "product \<Rightarrow> product \<Rightarrow> bool" where
  "fuzzyMatches variant p =
     (let variantKeyWords = extractKeyWords (name variant);
          variantTierWords = extractTierWords (name variant);
          productKeyWords = extractKeyWords (name p);
          productTierWords = extractTierWords (name p)
      in if tierStr variantTierWords \<noteq> tierStr productTierWords then False
         else if missingWords variantKeyWords productKeyWords \<noteq> [] \<and>
                 significantMissing variantKeyWords productKeyWords \<noteq> [] then False
         else atLeastThreshold (similarity variantKeyWords productKeyWords))"

text \<open>
  The matching part of \<^verbatim>\<open>handleVariantSelected\<close>: strategy 1 when the variant has a
  model code, strategy 2 when strategy 1 found nothing.
\<close>

definition matchingProducts :: "product \<Rightarrow> product list \<Rightarrow> product list" where
  "matchingProducts variant allProducts =
     (let byModel = (if hasModel variant then filter (modelMatches variant) allProducts else [])
      in if length byModel = 0 then filter (fuzzyMatches variant) allProducts else byModel)"

text \<open>The claim's similarity, as a rational number (for non-empty key-word sets).\<close>

definition overlapRatio :: "string list \<Rightarrow> string list \<Rightarrow> rat" where
  "overlapRatio variantKeyWords productKeyWords =
     of_nat (card (set variantKeyWords \<inter> set productKeyWords)) /
     of_nat (max (card (set variantKeyWords)) (card (set productKeyWords)))"

section \<open>Price History Merger (\<^verbatim>\<open>fetchGroupPriceHistory\<close>)\<close>

text \<open>
  One stored price observation, and one row of the chart data: the row's date and, per
  retailer, the price in that retailer's cell (no entry: the cell is missing).  Prices
  are numbers (never \<^verbatim>\<open>null\<close>), and no retailer is called \<^verbatim>\<open>date\<close>, the one other
  property of a row object.
\<close>

record entry =
  timestamp :: string
  hprice :: rat

record row =
  date :: string
  cells :: "string \<rightharpoonup> rat"

type_synonym history = "(string \<times> entry list) list"

text \<open>\<^verbatim>\<open>entry.timestamp.split('T')[0].split(' ')[0]\<close>\<close>

definition dateOf :: "string \<Rightarrow> string" where
  "dateOf ts = takeWhile (\<lambda>c. c \<noteq> CHR '' '') (takeWhile (\<lambda>c. c \<noteq> CHR ''T'') ts)"

text \<open>
  \<^verbatim>\<open>dateMap\<close> is an object keyed by date; its keys keep their insertion order, so it
  is an association list: a new date goes to the end, an existing row is updated in
  place.
\<close>

definition placeEntry :: "(string \<times> row) list \<Rightarrow> string \<Rightarrow> entry \<Rightarrow> (string \<times> row) list" where
  "placeEntry dateMap r e =
     (let d = dateOf (timestamp e);
          old = (case map_of dateMap d of
                   None \<Rightarrow> \<lparr>date = d, cells = Map.empty\<rparr>
                 | Some existing \<Rightarrow> existing)
      in AList.update d (old\<lparr>cells := (cells old)(r \<mapsto> hprice e)\<rparr>) dateMap)"

definition buildDateMap :: "history \<Rightarrow> (string \<times> row) list" where
  "buildDateMap allHistory =
     foldl (\<lambda>dateMap (r, h). foldl (\<lambda>dateMap e. placeEntry dateMap r e) dateMap h)
       [] allHistory"

text \<open>
  \<^verbatim>\<open>Object.values(dateMap).sort((a, b) => a.date.localeCompare(b.date))\<close>: a stable
  sort by date.  The comparison is the order of the strings by code units, with which
  \<^verbatim>\<open>localeCompare\<close> agrees on dates written \<^verbatim>\<open>YYYY-MM-DD\<close>.
\<close>

definition sortedRows :: "(string \<times> row) list \<Rightarrow> row list" where
  "sortedRows dateMap = sort_key date (map snd dateMap)"

text \<open>
  The fill-forward pass.  For one row the retailers are visited in order, updating
  \<^verbatim>\<open>lastKnown\<close> from a present cell and filling a missing cell from
  \<^verbatim>\<open>lastKnown\<close>; the rows are visited in sorted order, \<^verbatim>\<open>lastKnown\<close> carried along.
\<close>

fun fillRow :: "string list \<Rightarrow> (string \<rightharpoonup> rat) \<Rightarrow> row \<Rightarrow> (string \<rightharpoonup> rat) \<times> row" where
  "fillRow [] lastKnown rw = (lastKnown, rw)"
| "fillRow (r # rs) lastKnown rw =
     (case cells rw r of
        Some v \<Rightarrow> fillRow rs (lastKnown(r \<mapsto> v)) rw
      | None \<Rightarrow>
          (case lastKnown r of
             Some v \<Rightarrow> fillRow rs lastKnown (rw\<lparr>cells := (cells rw)(r \<mapsto> v)\<rparr>)
           | None \<Rightarrow> fillRow rs lastKnown rw))"

fun fillForward :: "string list \<Rightarrow> (string \<rightharpoonup> rat) \<Rightarrow> row list \<Rightarrow> row list" where
  "fillForward retailers lastKnown [] = []"
| "fillForward retailers lastKnown (rw # rws) =
     (case fillRow retailers lastKnown rw of
        (lastKnown', rw') \<Rightarrow> rw' # fillForward retailers lastKnown' rws)"

text \<open>
  The merged chart data for the products of a group, given as the list of
  (retailer, history) pairs in product order.  Without products the result is empty.
\<close>

definition mergePriceHistory :: "history \<Rightarrow> row list" where
  "mergePriceHistory allHistory =
     (if allHistory = [] then []
      else fillForward (map fst allHistory) Map.empty (sortedRows (buildDateMap allHistory)))"

subsection \<open>What the input says: observations, per retailer and date\<close>

text \<open>
  The prices a retailer's histories hold for a calendar date, in the order in which the
  merger places them (product order, then history order); the last one is the one that
  stays in the cell.
\<close>

definition observations :: "history \<Rightarrow> string \<Rightarrow> string \<Rightarrow> rat list" where
  "observations allHistory r d =
     concat (map (\<lambda>(r', h). if r' = r
        then map hprice (filter (\<lambda>e. dateOf (timestamp e) = d) h) else []) allHistory)"

definition observed :: "history \<Rightarrow> string \<Rightarrow> string \<Rightarrow> rat option" where
  "observed allHistory r d =
     (case observations allHistory r d of [] \<Rightarrow> None | v # vs \<Rightarrow> Some (last (v # vs)))"

definition observationDates :: "history \<Rightarrow> string list" where
  "observationDates allHistory =
     concat (map (\<lambda>(r, h). map (\<lambda>e. dateOf (timestamp e)) h) allHistory)"

text \<open>
  A dense input: every retailer has exactly one observation on every date on which any
  retailer has one.
\<close>

definition dense :: "history \<Rightarrow> bool" where
  "dense allHistory =
     list_all (\<lambda>r. list_all (\<lambda>d. length (observations allHistory r d) = 1)
        (observationDates allHistory)) (map fst allHistory)"

text \<open>
  The date-aligned series a dense input already is: one row per observation date, in
  ascending order, each cell holding the retailer's observation of that date.
\<close>

definition alignedSeries :: "history \<Rightarrow> row list" where
  "alignedSeries allHistory =
     map (\<lambda>d. \<lparr>date = d, cells = (\<lambda>r. observed allHistory r d)\<rparr>)
       (sorted_list_of_set (set (observationDates allHistory)))"

subsection \<open>Auxiliary notions for the proofs\<close>

text \<open>
  The cell of a date map, the invariant of a date map (one row per date, filed under
  its own date), the two loops of the construction as separate functions, and the value
  the fill-forward pass carries to a date: the last present cell before it.
\<close>

definition cellAt :: "(string \<times> row) list \<Rightarrow> string \<Rightarrow> string \<Rightarrow> rat option" where
  "cellAt dateMap d r = (case map_of dateMap d of None \<Rightarrow> None | Some rw \<Rightarrow> cells rw r)"

definition wellKeyed :: "(string \<times> row) list \<Rightarrow> bool" where
  "wellKeyed dateMap = (distinct (map fst dateMap) \<and> list_all (\<lambda>(d, rw). date rw = d) dateMap)"

definition placeAll :: "(string \<times> row) list \<Rightarrow> string \<Rightarrow> entry list \<Rightarrow> (string \<times> row) list" where
  "placeAll dm r h = foldl (\<lambda>dateMap e. placeEntry dateMap r e) dm h"

definition buildFrom :: "(string \<times> row) list \<Rightarrow> history \<Rightarrow> (string \<times> row) list" where
  "buildFrom dm H = foldl (\<lambda>dateMap (r, h). placeAll dateMap r h) dm H"

primrec lastSeen :: "'a option \<Rightarrow> 'a option list \<Rightarrow> 'a option" where
  "lastSeen init [] = init"
| "lastSeen init (c # cs) = lastSeen (case c of Some v \<Rightarrow> Some v | None \<Rightarrow> init) cs"

definition carried :: "row list \<Rightarrow> (string \<rightharpoonup> rat) \<Rightarrow> string \<Rightarrow> string \<Rightarrow> rat option" where
  "carried rws lastKnown r d =
     lastSeen (lastKnown r) (map (\<lambda>rw. cells rw r) (filter (\<lambda>rw. date rw < d) rws))"

definition filledCells :: "string list \<Rightarrow> (string \<rightharpoonup> rat) \<Rightarrow> row \<Rightarrow> (string \<rightharpoonup> rat)" where
  "filledCells retailers lastKnown rw =
     (\<lambda>r. if r \<in> set retailers
          then (case cells rw r of Some v \<Rightarrow> Some v | None \<Rightarrow> lastKnown r)
          else cells rw r)"

definition sortedDates :: "history \<Rightarrow> string list" where
  "sortedDates H = sorted_list_of_set (set (observationDates H))"

definition carriedPrice :: "history \<Rightarrow> string \<Rightarrow> string \<Rightarrow> rat option" where
  "carriedPrice H r d =
     lastSeen None (map (\<lambda>d'. observed H r d') (filter (\<lambda>d'. d' < d) (sortedDates H)))"

section \<open>Sample histories\<close>

definition gappyHistory :: history where
  "gappyHistory =
     [(''A'', [\<lparr>timestamp = ''2024-03-01T09:00:00'', hprice = 100\<rparr>,
              \<lparr>timestamp = ''2024-03-03 18:30:00'', hprice = 110\<rparr>]),
      (''B'', [\<lparr>timestamp = ''2024-03-02T07:15:00'', hprice = 90\<rparr>])]"

definition denseHistory :: history where
  "denseHistory =
     [(''A'', [\<lparr>timestamp = ''2024-03-02T09:00:00'', hprice = 100\<rparr>,
              \<lparr>timestamp = ''2024-03-01T08:00:00'', hprice = 105\<rparr>]),
      (''B'', [\<lparr>timestamp = ''2024-03-01 07:15:00'', hprice = 90\<rparr>,
              \<lparr>timestamp = ''2024-03-02 07:30:00'', hprice = 95\<rparr>])]"

definition repeatedHistory :: history where
  "repeatedHistory =
     [(''A'', [\<lparr>timestamp = ''2024-03-01T09:00:00'', hprice = 100\<rparr>,
              \<lparr>timestamp = ''2024-03-01T17:45:00'', hprice = 102\<rparr>,
              \<lparr>timestamp = ''2024-03-04T09:00:00'', hprice = 99\<rparr>]),
      (''B'', [\<lparr>timestamp = ''2024-03-02T07:15:00'', hprice = 90\<rparr>])]"

section \<open>Sample listings\<close>

text \<open>Concrete listings on which the theorems below are instantiated.\<close>

definition widgetProA :: product where
  "widgetProA = \<lparr>retailer = ''PBTech'', name = ''Widget Pro 256GB'', brand = None,
     model = Some [], price = 1299, url = ''https://a.example/1''\<rparr>"

definition widgetProB :: product where
  "widgetProB = \<lparr>retailer = ''Noel Leeming'', name = ''WIDGET Pro, 256GB'', brand = None,
     model = None, price = 1349, url = ''https://b.example/7''\<rparr>"

definition widgetC :: product where
  "widgetC = \<lparr>retailer = ''JB Hi-Fi'', name = ''Widget 256GB'', brand = None,
     model = None, price = 999, url = ''https://c.example/3''\<rparr>"

definition theListing :: product where
  "theListing = \<lparr>retailer = ''JB Hi-Fi'', name = ''The'', brand = None, model = None,
     price = 25, url = ''https://c.example/8''\<rparr>"

definition gadgetShort :: product where
  "gadgetShort = \<lparr>retailer = ''PBTech'', name = ''Zed X2'', brand = None, model = None,
     price = 50, url = ''https://a.example/4''\<rparr>"

definition gadgetLong :: product where
  "gadgetLong = \<lparr>retailer = ''Acquire'', name = ''Zed X2 (Red) NZ Bundle'', brand = None,
     model = None, price = 55, url = ''https://d.example/5''\<rparr>"

definition gadgetLonger :: product where
  "gadgetLonger = \<lparr>retailer = ''Noel Leeming'', name = ''Zed X2 (Red) NZ Bundle Kit'',
     brand = None, model = None, price = 57, url = ''https://b.example/6''\<rparr>"

definition blankA :: product where
  "blankA = \<lparr>retailer = ''Acquire'', name = [], brand = None, model = None,
     price = 10, url = ''https://d.example/0''\<rparr>"

definition blankB :: product where
  "blankB = \<lparr>retailer = ''PBTech'', name = '' - '', brand = None, model = Some ''  '',
     price = 12, url = ''https://a.example/9''\<rparr>"

section \<open>Properties of the Identity Resolver\<close>

lemma dedup_acc: "dedup seen acc ps = acc @ dedup seen [] ps"
proof (induction ps arbitrary: seen acc)
  case Nil
  show ?case by simp
next
  case (Cons p ps)
  show ?case
    using Cons.IH [of "insert (getProductIdentityKey p) seen" "acc @ [p]"]
      Cons.IH [of "insert (getProductIdentityKey p) seen" "[p]"] Cons.IH [of seen acc]
    by (simp add: Let_def)
qed

lemma dedup_Cons:
  "dedup seen [] (p # ps) =
     (if getProductIdentityKey p \<in> seen then dedup seen [] ps
      else p # dedup (insert (getProductIdentityKey p) seen) [] ps)"
  using dedup_acc [of "insert (getProductIdentityKey p) seen" "[p]" ps]
  by (simp add: Let_def)

declare dedup.simps(2) [simp del]

lemma dedup_keys:
  "set (map getProductIdentityKey (dedup seen [] ps)) = set (map getProductIdentityKey ps) - seen"
  by (induction ps arbitrary: seen) (auto simp: dedup_Cons)

lemma dedup_distinct: "distinct (map getProductIdentityKey (dedup seen [] ps))"
proof (induction ps arbitrary: seen)
  case Nil
  show ?case by simp
next
  case (Cons p ps)
  have "getProductIdentityKey p \<notin>
      set (map getProductIdentityKey (dedup (insert (getProductIdentityKey p) seen) [] ps))"
    unfolding dedup_keys by simp
  with Cons.IH show ?case by (simp add: dedup_Cons)
qed

lemma dedup_subseq: "subseq (dedup seen [] ps) ps"
  by (induction ps arbitrary: seen) (auto simp: dedup_Cons)

lemma dedup_first:
  "q \<in> set (dedup seen [] ps) \<Longrightarrow>
     find (\<lambda>x. getProductIdentityKey x = getProductIdentityKey q) ps = Some q"
proof (induction ps arbitrary: seen)
  case Nil
  then show ?case by simp
next
  case (Cons p ps)
  show ?case
  proof (cases "q = p \<and> getProductIdentityKey p \<notin> seen")
    case True
    then show ?thesis by simp
  next
    case False
    let ?seen' = "if getProductIdentityKey p \<in> seen then seen
                  else insert (getProductIdentityKey p) seen"
    from False Cons.prems have in_rest: "q \<in> set (dedup ?seen' [] ps)"
      by (auto simp: dedup_Cons split: if_splits)
    then have "getProductIdentityKey q \<in> set (map getProductIdentityKey (dedup ?seen' [] ps))"
      by simp
    then have "getProductIdentityKey q \<notin> ?seen'"
      unfolding dedup_keys by simp
    then have "getProductIdentityKey p \<noteq> getProductIdentityKey q"
      by (auto split: if_splits)
    with Cons.IH [OF in_rest] show ?thesis by simp
  qed
qed

lemma dedup_covers:
  "p \<in> set ps \<Longrightarrow> getProductIdentityKey p \<notin> seen \<Longrightarrow>
     \<exists>q \<in> set (dedup seen [] ps). getProductIdentityKey q = getProductIdentityKey p"
proof -
  assume "p \<in> set ps" "getProductIdentityKey p \<notin> seen"
  then have "getProductIdentityKey p \<in> set (map getProductIdentityKey (dedup seen [] ps))"
    unfolding dedup_keys by simp
  then show ?thesis by auto
qed

lemma split_runs_all_delim: "\<forall>c \<in> set s. P c \<Longrightarrow> set (split_runs P s) \<subseteq> {[]}"
  by (induction s) auto

lemma nameDelim_not_digit: "nameDelim c \<Longrightarrow> \<not> is_digit c"
  by (auto simp: nameDelim_def is_digit_def is_space_def)

lemma nameDelim_lower: "nameDelim c \<Longrightarrow> lower_char c = c"
  by (auto simp: nameDelim_def lower_char_def is_space_def)

lemma storageMatch_no_digit: "\<forall>c \<in> set s. \<not> is_digit c \<Longrightarrow> storageMatch s = None"
  by (induction s) (auto simp: storageAt_def)

lemma filter_all_empty: "set ws \<subseteq> {[]} \<Longrightarrow> \<not> Q [] \<Longrightarrow> filter Q ws = []"
  by (induction ws) auto

lemma nameKey_delims_only:
  assumes "\<forall>c \<in> set n. nameDelim c"
  shows "nameKey n = []"
proof -
  have low: "toLowerCase n = n"
    using assms unfolding toLowerCase_def by (induction n) (auto simp: nameDelim_lower)
  have ws: "set (nameWords n) \<subseteq> {[]}"
    unfolding nameWords_def using assms by (rule split_runs_all_delim)
  have core: "coreWordsOf n = []"
    unfolding coreWordsOf_def
    using filter_all_empty [OF ws, of "\<lambda>w. length w > 1 \<and> w \<notin> set COLOR_WORDS \<and>
        w \<notin> set TIER_WORDS \<and> w \<notin> set FILLER_WORDS \<and> \<not> isStorageWord w"]
    by simp
  have tier: "tiersOf n = []"
    unfolding tiersOf_def tierWordsOf_def
    using filter_all_empty [OF ws, of "\<lambda>w. w \<in> set TIER_WORDS"] by (simp add: TIER_WORDS_def)
  have sto: "storageOf n = []"
    unfolding storageOf_def using storageMatch_no_digit [of n] assms nameDelim_not_digit by auto
  show ?thesis
    unfolding nameKey_def by (simp add: low core tier sto)
qed

lemma of_char_lower:
  "(of_char (lower_char c) :: nat) =
     (if 65 \<le> (of_char c :: nat) \<and> (of_char c :: nat) \<le> 90 then of_char c + 32 else of_char c)"
  by (simp add: lower_char_def)

lemma lower_char_eq_nonletter:
  assumes "(of_char d :: nat) < 97 \<or> 122 < (of_char d :: nat)"
  shows "lower_char c = d \<longleftrightarrow> c = d \<and> \<not> (65 \<le> (of_char c :: nat) \<and> (of_char c :: nat) \<le> 90)"
proof
  assume e: "lower_char c = d"
  then have "(of_char (lower_char c) :: nat) = of_char d" by simp
  with assms have n: "\<not> (65 \<le> (of_char c :: nat) \<and> (of_char c :: nat) \<le> 90)"
    unfolding of_char_lower by (auto split: if_splits)
  with e show "c = d \<and> \<not> (65 \<le> (of_char c :: nat) \<and> (of_char c :: nat) \<le> 90)"
    by (simp add: lower_char_def)
next
  assume "c = d \<and> \<not> (65 \<le> (of_char c :: nat) \<and> (of_char c :: nat) \<le> 90)"
  then show "lower_char c = d" by (auto simp: lower_char_def)
qed

lemma toLowerCase_absent:
  assumes "(of_char d :: nat) < 97 \<or> 122 < (of_char d :: nat)" "d \<notin> set n"
  shows "d \<notin> set (toLowerCase n)"
proof
  assume "d \<in> set (toLowerCase n)"
  then obtain x where x: "x \<in> set n" "lower_char x = d"
    unfolding toLowerCase_def by auto
  from x(2) have "x = d" using lower_char_eq_nonletter [OF assms(1), of x] by simp
  with x(1) assms(2) show False by simp
qed

lemma split_runs_cong:
  "\<forall>c \<in> set s. P c = Q c \<Longrightarrow> split_runs P s = split_runs Q s"
proof (induction s)
  case Nil
  show ?case by simp
next
  case (Cons c cs)
  then have "cs \<noteq> [] \<Longrightarrow> P (hd cs) = Q (hd cs)" by (cases cs) auto
  with Cons show ?case by auto
qed

lemma split_runs_chars: "w \<in> set (split_runs P s) \<Longrightarrow> set w \<subseteq> set s"
proof (induction s arbitrary: w)
  case Nil
  then show ?case by simp
next
  case (Cons c cs)
  show ?case
  proof (cases "P c")
    case True
    with Cons.prems have "w = [] \<or> w \<in> set (split_runs P cs)"
      by (auto split: if_splits)
    with Cons.IH show ?thesis by auto
  next
    case False
    show ?thesis
    proof (cases "split_runs P cs")
      case Nil
      with False Cons.prems show ?thesis by simp
    next
      case (Cons v vs)
      with False Cons.prems have "w = c # v \<or> w \<in> set vs" by simp
      moreover have "set v \<subseteq> set cs" "\<And>u. u \<in> set vs \<Longrightarrow> set u \<subseteq> set cs"
        using Cons.IH Cons by simp_all
      ultimately show ?thesis by auto
    qed
  qed
qed

lemma join_chars: "set (join sep ws) \<subseteq> set sep \<union> \<Union> (set ` set ws)"
  by (induction sep ws rule: join.induct) auto

lemma storageAt_chars:
  "storageAt s = Some m \<Longrightarrow> \<forall>c \<in> set m. is_digit c \<or> is_space c \<or> is_gt c \<or> is_b c"
  unfolding storageAt_def Let_def
  by (auto split: if_splits list.splits dest: set_takeWhileD)

lemma storageMatch_chars:
  "storageMatch s = Some m \<Longrightarrow> \<forall>c \<in> set m. is_digit c \<or> is_space c \<or> is_gt c \<or> is_b c"
  by (induction s) (auto split: option.splits dest: storageAt_chars)

lemma storageOf_chars:
  assumes "c \<in> set (storageOf nm)"
  shows "is_digit c \<or> is_gt c \<or> is_b c"
proof (cases "storageMatch nm")
  case None
  with assms show ?thesis by (simp add: storageOf_def)
next
  case (Some m)
  with assms have "c \<in> set m" "\<not> is_space c" by (simp_all add: storageOf_def)
  with storageMatch_chars [OF Some] show ?thesis by blast
qed

lemma bar_not_storage: "\<not> is_digit CHR ''|'' \<and> \<not> is_gt CHR ''|'' \<and> \<not> is_b CHR ''|''"
  by (simp add: is_digit_def is_gt_def is_b_def)

lemma tiersOf_no_bar: "CHR ''|'' \<notin> set (tiersOf nm)"
proof
  assume "CHR ''|'' \<in> set (tiersOf nm)"
  then have "CHR ''|'' \<in> set ''-'' \<union> \<Union> (set ` set (sort (tierWordsOf nm)))"
    unfolding tiersOf_def using join_chars by blast
  then obtain w where "w \<in> set TIER_WORDS" "CHR ''|'' \<in> set w"
    by (auto simp: tierWordsOf_def)
  then show False by (auto simp: TIER_WORDS_def)
qed

lemma coreWordsOf_chars: "set (coreWordsOf nm) \<subseteq> insert CHR ''-'' (set nm)"
proof
  fix c assume "c \<in> set (coreWordsOf nm)"
  then have "c \<in> set ''-'' \<union> \<Union> (set ` set (take 4 (filter (\<lambda>w. length w > 1 \<and> w \<notin> set COLOR_WORDS \<and>
        w \<notin> set TIER_WORDS \<and> w \<notin> set FILLER_WORDS \<and> \<not> isStorageWord w) (nameWords nm))))"
    unfolding coreWordsOf_def using join_chars by blast
  then have "c = CHR ''-'' \<or> (\<exists>w \<in> set (nameWords nm). c \<in> set w)"
    by (auto dest!: in_set_takeD)
  then show "c \<in> insert CHR ''-'' (set nm)"
    unfolding nameWords_def using split_runs_chars by fastforce
qed

text \<open>
  C4.  A listing whose model code is not empty once trimmed gets that code, lower-cased
  and trimmed, as its identity key: the name plays no part.  Hence two listings with the
  same such model code get the same key, whatever their retailers and names.
\<close>

theorem model_key_authoritative:
  "model p = Some m \<Longrightarrow> trim m \<noteq> [] \<Longrightarrow>
     getProductIdentityKey p = trim (toLowerCase m) \<and>
     (\<forall>q. model q = Some m \<longrightarrow> getProductIdentityKey q = getProductIdentityKey p)"
  by (auto simp: getProductIdentityKey_def trim_def)

theorem model_key_authoritative_witness:
  "trim '' SM-S928B '' \<noteq> [] \<and>
   getProductIdentityKey \<lparr>retailer = ''PBTech'', name = ''Galaxy S24 Ultra'', brand = None,
      model = Some '' SM-S928B '', price = 1999, url = ''u1''\<rparr> = ''sm-s928b'' \<and>
   getProductIdentityKey \<lparr>retailer = ''JB Hi-Fi'', name = ''Samsung phone (Grey)'',
      brand = Some ''Samsung'', model = Some '' SM-S928B '', price = 2049, url = ''u2''\<rparr> =
   getProductIdentityKey \<lparr>retailer = ''PBTech'', name = ''Galaxy S24 Ultra'', brand = None,
      model = Some '' SM-S928B '', price = 1999, url = ''u1''\<rparr>"
proof -
  let ?p = "\<lparr>retailer = ''PBTech'', name = ''Galaxy S24 Ultra'', brand = None,
      model = Some '' SM-S928B '', price = 1999, url = ''u1''\<rparr>"
  let ?q = "\<lparr>retailer = ''JB Hi-Fi'', name = ''Samsung phone (Grey)'',
      brand = Some ''Samsung'', model = Some '' SM-S928B '', price = 2049, url = ''u2''\<rparr>"
  have t: "trim '' SM-S928B '' \<noteq> []" by code_simp
  have l: "trim (toLowerCase '' SM-S928B '') = ''sm-s928b''" by code_simp
  have mp: "model ?p = Some '' SM-S928B ''" by simp
  have mq: "model ?q = Some '' SM-S928B ''" by simp
  from model_key_authoritative [OF mp t] mq l t show ?thesis by metis
qed

text \<open>
  C5.  \<^verbatim>\<open>resolve\<close> returns one listing per identity key of the input: the keys of
  the result are distinct and are exactly the keys of the input, every listing of the
  result is the first listing of the input with its key, and the result is a
  subsequence of the input (the input order is kept).
\<close>

theorem resolve_first_seen:
  "distinct (map getProductIdentityKey (resolve ls)) \<and>
   set (map getProductIdentityKey (resolve ls)) = set (map getProductIdentityKey ls) \<and>
   (\<forall>q \<in> set (resolve ls).
      find (\<lambda>x. getProductIdentityKey x = getProductIdentityKey q) ls = Some q) \<and>
   subseq (resolve ls) ls"
  unfolding resolve_def
  using dedup_distinct [of "{}" ls] dedup_keys [of "{}" ls] dedup_subseq [of "{}" ls]
    dedup_first [of _ "{}" ls]
  by simp

theorem resolve_first_seen_witness:
  "widgetProA \<in> set (resolve [widgetProA, widgetC, widgetProB, widgetC]) \<and>
   find (\<lambda>x. getProductIdentityKey x = getProductIdentityKey widgetProA)
     [widgetProA, widgetC, widgetProB, widgetC] = Some widgetProA \<and>
   resolve [widgetProA, widgetC, widgetProB, widgetC] = [widgetProA, widgetC]"
proof -
  have r: "resolve [widgetProA, widgetC, widgetProB, widgetC] = [widgetProA, widgetC]"
    unfolding widgetProA_def widgetProB_def widgetC_def by code_simp
  then have m: "widgetProA \<in> set (resolve [widgetProA, widgetC, widgetProB, widgetC])"
    by simp
  from resolve_first_seen [of "[widgetProA, widgetC, widgetProB, widgetC]"] m r
  show ?thesis by blast
qed

text \<open>
  C7.  \<^verbatim>\<open>resolve\<close> drops no listing: every listing of the input has its key
  represented in the result, by the first listing of the input with that key.  A listing
  without a model code whose name is empty, or made of delimiters only, gets the empty
  key, and is covered like any other.
\<close>

theorem resolve_keeps_every_listing:
  "p \<in> set ls \<Longrightarrow>
     (\<exists>q \<in> set (resolve ls). getProductIdentityKey q = getProductIdentityKey p \<and>
        find (\<lambda>x. getProductIdentityKey x = getProductIdentityKey p) ls = Some q) \<and>
     (\<not> hasModel p \<and> (\<forall>c \<in> set (name p). nameDelim c) \<longrightarrow> getProductIdentityKey p = [])"
proof
  assume "p \<in> set ls"
  then obtain q where q: "q \<in> set (dedup {} [] ls)"
      "getProductIdentityKey q = getProductIdentityKey p"
    using dedup_covers [of p ls "{}"] by auto
  from dedup_first [OF q(1)] q show "\<exists>q \<in> set (resolve ls).
      getProductIdentityKey q = getProductIdentityKey p \<and>
      find (\<lambda>x. getProductIdentityKey x = getProductIdentityKey p) ls = Some q"
    unfolding resolve_def by auto
next
  show "\<not> hasModel p \<and> (\<forall>c \<in> set (name p). nameDelim c) \<longrightarrow> getProductIdentityKey p = []"
    by (auto simp: hasModel_def getProductIdentityKey_def nameKey_delims_only
        split: option.splits)
qed

theorem resolve_keeps_every_listing_witness:
  "blankB \<in> set [blankA, widgetC, blankB] \<and> \<not> hasModel blankB \<and>
   list_all nameDelim (name blankB) \<and> getProductIdentityKey blankB = [] \<and>
   (\<exists>q \<in> set (resolve [blankA, widgetC, blankB]).
      getProductIdentityKey q = getProductIdentityKey blankB \<and>
      find (\<lambda>x. getProductIdentityKey x = getProductIdentityKey blankB)
        [blankA, widgetC, blankB] = Some q) \<and>
   resolve [blankA, widgetC, blankB] = [blankA, widgetC]"
proof -
  have m: "blankB \<in> set [blankA, widgetC, blankB]" by simp
  have h: "\<not> hasModel blankB \<and> list_all nameDelim (name blankB)"
    unfolding blankB_def by code_simp
  have r: "resolve [blankA, widgetC, blankB] = [blankA, widgetC]"
    unfolding blankA_def blankB_def widgetC_def by code_simp
  from resolve_keeps_every_listing [OF m] h r m show ?thesis
    unfolding list_all_iff by blast
qed

text \<open>
  C6.  In a key built from the name, the tier part and the storage part never contain the
  delimiter \<^verbatim>\<open>|\<close>.  The core part is made of tokens of the lower-cased name, which
  is split on white space, hyphen, slash and comma only: it is free of \<^verbatim>\<open>|\<close> when the
  name is.
\<close>

theorem key_parts_delimiter:
  "CHR ''|'' \<notin> set (tiersOf (toLowerCase n)) \<and>
   CHR ''|'' \<notin> set (storageOf (toLowerCase n)) \<and>
   (CHR ''|'' \<notin> set n \<longrightarrow> CHR ''|'' \<notin> set (coreWordsOf (toLowerCase n)))"
proof -
  have "CHR ''|'' \<notin> set (storageOf (toLowerCase n))"
    using storageOf_chars bar_not_storage by blast
  moreover have "CHR ''|'' \<notin> set n \<longrightarrow> CHR ''|'' \<notin> set (coreWordsOf (toLowerCase n))"
    using coreWordsOf_chars [of "toLowerCase n"] toLowerCase_absent [of "CHR ''|''" n] by auto
  ultimately show ?thesis using tiersOf_no_bar by blast
qed


theorem key_parts_delimiter_witness:
  "CHR ''|'' \<notin> set ''Widget Pro 256GB'' \<and>
   CHR ''|'' \<notin> set (coreWordsOf (toLowerCase ''Widget Pro 256GB'')) \<and>
   nameKey ''Widget Pro 256GB'' = ''widget|pro|256gb''"
proof -
  have a: "CHR ''|'' \<notin> set ''Widget Pro 256GB''" by simp
  have k: "nameKey ''Widget Pro 256GB'' = ''widget|pro|256gb''" by code_simp
  from key_parts_delimiter [of "''Widget Pro 256GB''"] a k show ?thesis by blast
qed

text \<open>
  A name that contains \<^verbatim>\<open>|\<close> carries it into the core part, and the key no longer
  tells its parts apart: \<^verbatim>\<open>Hub|Pro\<close> (core \<^verbatim>\<open>hub|pro\<close>, no tier) and
  \<^verbatim>\<open>Hub Pro\<close> (core \<^verbatim>\<open>hub\<close>, tier \<^verbatim>\<open>pro\<close>) get the same key.
\<close>

theorem core_part_contains_delimiter:
  "CHR ''|'' \<in> set (coreWordsOf (toLowerCase ''Hub|Pro'')) \<and>
   coreWordsOf (toLowerCase ''Hub|Pro'') = ''hub|pro'' \<and>
   tiersOf (toLowerCase ''Hub|Pro'') = [] \<and>
   nameKey ''Hub|Pro'' = ''hub|pro'' \<and> nameKey ''Hub Pro'' = ''hub|pro''"
  by code_simp

section \<open>Properties of the Retailer Matcher\<close>

lemma newSet_set [simp]: "set (newSet xs) = set xs"
  by (simp add: newSet_def)

lemma newSet_distinct [simp]: "distinct (newSet xs)"
  by (simp add: newSet_def)

lemma newSet_distinct_id: "distinct xs \<Longrightarrow> newSet xs = xs"
  by (simp add: newSet_def distinct_remdups_id)

lemma newSet_Nil_iff [simp]: "newSet xs = [] \<longleftrightarrow> xs = []"
  by (simp add: newSet_def)

lemma length_newSet: "length (newSet xs) = card (set xs)"
  using distinct_card [of "newSet xs"] by simp

lemma extractKeyWords_distinct: "distinct (extractKeyWords n)"
  by (simp add: extractKeyWords_def)

lemma extractTierWords_distinct: "distinct (extractTierWords n)"
  by (simp add: extractTierWords_def)

lemma tierStr_cong:
  assumes "distinct xs" "distinct ys" "set xs = set ys"
  shows "tierStr xs = tierStr ys"
proof -
  have "sort xs = sort ys"
    using assms by (intro sorted_distinct_set_unique) simp_all
  then show ?thesis by (simp add: tierStr_def)
qed

lemma length_intersection:
  "length (intersection V P) = card (set V \<inter> set P)"
proof -
  have "set (filter (\<lambda>x. x \<in> set P) V) = set V \<inter> set P" by auto
  then show ?thesis unfolding intersection_def length_newSet by simp
qed

lemma atLeastThreshold_divide:
  "i \<le> m \<Longrightarrow> atLeastThreshold (divide i m) \<longleftrightarrow> m \<noteq> 0 \<and> (of_nat i / of_nat m :: rat) \<ge> 4 / 10"
  by (auto simp: divide_def)

lemma similarity_overlapRatio:
  assumes "distinct V" "distinct P"
  shows "atLeastThreshold (similarity V P) \<longleftrightarrow> (V \<noteq> [] \<or> P \<noteq> []) \<and> overlapRatio V P \<ge> 4 / 10"
proof -
  have lv: "length V = card (set V)" and lp: "length P = card (set P)"
    using assms by (simp_all add: distinct_card)
  have le: "card (set V \<inter> set P) \<le> max (card (set V)) (card (set P))"
    by (meson List.finite_set card_mono inf_le1 le_max_iff_disj)
  have ne: "max (card (set V)) (card (set P)) \<noteq> 0 \<longleftrightarrow> V \<noteq> [] \<or> P \<noteq> []"
    unfolding lv [symmetric] lp [symmetric] by (auto simp: max_def)
  show ?thesis
    unfolding similarity_def length_intersection lv lp overlapRatio_def
    using atLeastThreshold_divide [OF le] ne by simp
qed


text \<open>
  C1.  The two tier extractions differ: strategy 2 of the matcher has the resolver's
  vocabulary and the words \<^verbatim>\<open>standard\<close> and \<^verbatim>\<open>basic\<close> besides, and it splits the
  name on white space and hyphen only.  For a name without slash and comma the
  matcher's tier-token set is the resolver's together with whichever of
  \<^verbatim>\<open>standard\<close> and \<^verbatim>\<open>basic\<close> are tokens of the name.
\<close>

theorem tier_vocabularies_related:
  assumes "CHR ''/'' \<notin> set n" and "CHR '','' \<notin> set n"
  shows "set (extractTierWords n) =
           set (tierWordsOf (toLowerCase n)) \<union>
           ({''standard'', ''basic''} \<inter> set (split_runs fuzzyDelim (toLowerCase n)))"
proof -
  have "CHR ''/'' \<notin> set (toLowerCase n)" "CHR '','' \<notin> set (toLowerCase n)"
    using assms by (simp_all add: toLowerCase_absent)
  then have "\<forall>c \<in> set (toLowerCase n). nameDelim c = fuzzyDelim c"
    by (auto simp: nameDelim_def fuzzyDelim_def)
  then have w: "nameWords (toLowerCase n) = split_runs fuzzyDelim (toLowerCase n)"
    unfolding nameWords_def by (rule split_runs_cong)
  show ?thesis
    unfolding extractTierWords_def tierWordsOf_def w
    by (auto simp: TIER_WORDS_def TIER_WORDS_fuzzy_def)
qed


theorem tier_vocabularies_related_witness:
  "CHR ''/'' \<notin> set ''Widget Pro Max - Basic'' \<and> CHR '','' \<notin> set ''Widget Pro Max - Basic'' \<and>
   set (extractTierWords ''Widget Pro Max - Basic'') =
     set (tierWordsOf (toLowerCase ''Widget Pro Max - Basic'')) \<union>
     ({''standard'', ''basic''} \<inter> set (split_runs fuzzyDelim (toLowerCase ''Widget Pro Max - Basic''))) \<and>
   extractTierWords ''Widget Pro Max - Basic'' = [''pro'', ''max'', ''basic''] \<and>
   tierWordsOf (toLowerCase ''Widget Pro Max - Basic'') = [''pro'', ''max'']"
proof -
  have a: "CHR ''/'' \<notin> set ''Widget Pro Max - Basic''" by simp
  have b: "CHR '','' \<notin> set ''Widget Pro Max - Basic''" by simp
  have c: "extractTierWords ''Widget Pro Max - Basic'' = [''pro'', ''max'', ''basic'']"
    by code_simp
  have d: "tierWordsOf (toLowerCase ''Widget Pro Max - Basic'') = [''pro'', ''max'']"
    by code_simp
  from tier_vocabularies_related [OF a b] a b c d show ?thesis by blast
qed

text \<open>
  The two extractions disagree on a name with the token \<^verbatim>\<open>standard\<close>, and on a name
  whose tier words are joined by a slash.
\<close>

theorem tier_extractions_differ:
  "extractTierWords ''Widget Standard'' = [''standard''] \<and>
   tierWordsOf (toLowerCase ''Widget Standard'') = [] \<and>
   extractTierWords ''Widget Pro/Max'' = [] \<and>
   tierWordsOf (toLowerCase ''Widget Pro/Max'') = [''pro'', ''max''] \<and>
   set (extractTierWords ''Widget Standard'') \<noteq> set (tierWordsOf (toLowerCase ''Widget Standard'')) \<and>
   set (extractTierWords ''Widget Pro/Max'') \<noteq> set (tierWordsOf (toLowerCase ''Widget Pro/Max''))"
  by code_simp

lemma modelMatches_self: "hasModel v \<Longrightarrow> modelMatches v v"
  by (auto simp: hasModel_def modelMatches_def split: option.splits)

lemma fuzzyMatches_self: "extractKeyWords (name v) \<noteq> [] \<Longrightarrow> fuzzyMatches v v"
proof -
  assume ne: "extractKeyWords (name v) \<noteq> []"
  let ?V = "extractKeyWords (name v)"
  have "filter (\<lambda>x. x \<in> set ?V) ?V = ?V" by simp
  then have i: "intersection ?V ?V = ?V"
    unfolding intersection_def by (simp add: newSet_distinct_id extractKeyWords_distinct)
  have "similarity ?V ?V = Num 1"
    unfolding similarity_def i using ne by (simp add: divide_def)
  then show ?thesis
    unfolding fuzzyMatches_def Let_def by (simp add: missingWords_def)
qed

lemma matchingProducts_contains_chosen:
  assumes "chosen \<in> set allListings"
      and "hasModel chosen \<or> extractKeyWords (name chosen) \<noteq> []"
  shows "chosen \<in> set (matchingProducts chosen allListings)"
proof (cases "hasModel chosen")
  case True
  then have "chosen \<in> set (filter (modelMatches chosen) allListings)"
    using assms(1) modelMatches_self by simp
  then show ?thesis
    unfolding matchingProducts_def Let_def using True by (auto simp: filter_empty_conv)
next
  case False
  with assms(2) have "fuzzyMatches chosen chosen" by (simp add: fuzzyMatches_self)
  then show ?thesis
    unfolding matchingProducts_def Let_def using False assms(1) by simp
qed


text \<open>
  C2.  A chosen listing without a model code whose name has no key word (an empty name,
  or stop words only) is not among its own matches: both key-word sets are empty, the
  similarity is \<^verbatim>\<open>0 / 0\<close>, and \<^verbatim>\<open>NaN >= 0.4\<close> is false.  With a model code, or
  with at least one key word, the chosen listing is always returned
  (\<open>matchingProducts_contains_chosen\<close>).
\<close>

theorem chosen_without_key_words_lost:
  "theListing \<in> set [theListing, widgetC] \<and>
   matchingProducts theListing [theListing, widgetC] = [] \<and>
   extractKeyWords (name theListing) = [] \<and>
   similarity (extractKeyWords (name theListing)) (extractKeyWords (name theListing)) = NaN \<and>
   matchingProducts blankA [blankA] = []"
proof -
  have "matchingProducts theListing [theListing, widgetC] = []"
    unfolding theListing_def widgetC_def by code_simp
  moreover have "extractKeyWords (name theListing) = []"
    unfolding theListing_def by code_simp
  moreover have "similarity (extractKeyWords (name theListing))
      (extractKeyWords (name theListing)) = NaN"
    unfolding theListing_def by code_simp
  moreover have "matchingProducts blankA [blankA] = []"
    unfolding blankA_def by code_simp
  ultimately show ?thesis by simp
qed

text \<open>
  C3.  For a chosen variant and a candidate that pass the two hard filters of strategy 2
  (equal tier-token sets, no significant key word of the chosen variant missing from
  the candidate), the candidate is accepted exactly when the key-word sets are not both
  empty and the size of their intersection divided by the size of the larger one is at
  least 0.4.  In particular a similarity of exactly 0.4 is accepted and one of 0.399 is
  rejected.
\<close>

theorem fuzzy_similarity_threshold:
  assumes "set (extractTierWords (name variant)) = set (extractTierWords (name p))"
      and "significantMissing (extractKeyWords (name variant)) (extractKeyWords (name p)) = []"
  shows "(fuzzyMatches variant p \<longleftrightarrow>
            (extractKeyWords (name variant) \<noteq> [] \<or> extractKeyWords (name p) \<noteq> []) \<and>
            overlapRatio (extractKeyWords (name variant)) (extractKeyWords (name p)) \<ge> 4 / 10) \<and>
         (overlapRatio (extractKeyWords (name variant)) (extractKeyWords (name p)) = 4 / 10
            \<longrightarrow> fuzzyMatches variant p) \<and>
         (overlapRatio (extractKeyWords (name variant)) (extractKeyWords (name p)) = 399 / 1000
            \<longrightarrow> \<not> fuzzyMatches variant p)"
proof -
  let ?V = "extractKeyWords (name variant)" and ?P = "extractKeyWords (name p)"
  have tiers: "tierStr (extractTierWords (name variant)) = tierStr (extractTierWords (name p))"
    using assms(1) by (intro tierStr_cong extractTierWords_distinct)
  have m: "fuzzyMatches variant p \<longleftrightarrow> atLeastThreshold (similarity ?V ?P)"
    unfolding fuzzyMatches_def Let_def using tiers assms(2) by simp
  have iff: "fuzzyMatches variant p \<longleftrightarrow> (?V \<noteq> [] \<or> ?P \<noteq> []) \<and> overlapRatio ?V ?P \<ge> 4 / 10"
    unfolding m by (rule similarity_overlapRatio) (rule extractKeyWords_distinct)+
  have z: "?V = [] \<and> ?P = [] \<Longrightarrow> overlapRatio ?V ?P = 0"
    by (simp add: overlapRatio_def)
  have "overlapRatio ?V ?P = 4 / 10 \<longrightarrow> fuzzyMatches variant p"
    using iff z by auto
  moreover have "overlapRatio ?V ?P = 399 / 1000 \<longrightarrow> \<not> fuzzyMatches variant p"
    using iff by auto
  ultimately show ?thesis using iff by blast
qed


theorem fuzzy_similarity_threshold_witness:
  "set (extractTierWords (name gadgetShort)) = set (extractTierWords (name gadgetLong)) \<and>
   significantMissing (extractKeyWords (name gadgetShort)) (extractKeyWords (name gadgetLong)) = [] \<and>
   overlapRatio (extractKeyWords (name gadgetShort)) (extractKeyWords (name gadgetLong)) = 4 / 10 \<and>
   fuzzyMatches gadgetShort gadgetLong \<and>
   set (extractTierWords (name gadgetShort)) = set (extractTierWords (name gadgetLonger)) \<and>
   significantMissing (extractKeyWords (name gadgetShort)) (extractKeyWords (name gadgetLonger)) = [] \<and>
   overlapRatio (extractKeyWords (name gadgetShort)) (extractKeyWords (name gadgetLonger)) = 1 / 3 \<and>
   \<not> fuzzyMatches gadgetShort gadgetLonger"
proof -
  have t1: "set (extractTierWords (name gadgetShort)) = set (extractTierWords (name gadgetLong))"
    unfolding gadgetShort_def gadgetLong_def by code_simp
  have s1: "significantMissing (extractKeyWords (name gadgetShort))
      (extractKeyWords (name gadgetLong)) = []"
    unfolding gadgetShort_def gadgetLong_def by code_simp
  have r1: "overlapRatio (extractKeyWords (name gadgetShort))
      (extractKeyWords (name gadgetLong)) = 4 / 10"
    unfolding gadgetShort_def gadgetLong_def by code_simp
  have t2: "set (extractTierWords (name gadgetShort)) = set (extractTierWords (name gadgetLonger))"
    unfolding gadgetShort_def gadgetLonger_def by code_simp
  have s2: "significantMissing (extractKeyWords (name gadgetShort))
      (extractKeyWords (name gadgetLonger)) = []"
    unfolding gadgetShort_def gadgetLonger_def by code_simp
  have r2: "overlapRatio (extractKeyWords (name gadgetShort))
      (extractKeyWords (name gadgetLonger)) = 1 / 3"
    unfolding gadgetShort_def gadgetLonger_def by code_simp
  have a: "fuzzyMatches gadgetShort gadgetLong"
    using fuzzy_similarity_threshold [OF t1 s1] r1 by blast
  have b: "\<not> fuzzyMatches gadgetShort gadgetLonger"
    using fuzzy_similarity_threshold [OF t2 s2] r2 by simp
  from t1 s1 r1 a t2 s2 r2 b show ?thesis by blast
qed

section \<open>Properties of the Price History Merger\<close>

subsection \<open>Building the date map\<close>

lemma update_keyed:
  "list_all (\<lambda>(d, rw). date rw = d) al \<Longrightarrow> date v = k \<Longrightarrow>
     list_all (\<lambda>(d, rw). date rw = d) (AList.update k v al)"
  by (induction al) auto

lemma wellKeyed_placeEntry: "wellKeyed dm \<Longrightarrow> wellKeyed (placeEntry dm r e)"
proof -
  assume w: "wellKeyed dm"
  let ?d = "dateOf (timestamp e)"
  have "map_of dm ?d = Some rw \<Longrightarrow> date rw = ?d" for rw
  proof -
    assume "map_of dm ?d = Some rw"
    then have "(?d, rw) \<in> set dm" by (rule map_of_SomeD)
    with w show ?thesis by (auto simp: wellKeyed_def list_all_iff)
  qed
  then show ?thesis
    using w unfolding wellKeyed_def placeEntry_def Let_def
    by (auto intro!: update_keyed distinct_update split: option.splits)
qed

lemma cellAt_placeEntry:
  "cellAt (placeEntry dm r e) d r' =
     (if d = dateOf (timestamp e) \<and> r' = r then Some (hprice e) else cellAt dm d r')"
  unfolding cellAt_def placeEntry_def Let_def
  by (auto simp: update_conv' split: option.splits)

lemma keys_placeEntry:
  "fst ` set (placeEntry dm r e) = insert (dateOf (timestamp e)) (fst ` set dm)"
  unfolding placeEntry_def Let_def by (simp add: dom_update)

lemma wellKeyed_placeAll: "wellKeyed dm \<Longrightarrow> wellKeyed (placeAll dm r h)"
  unfolding placeAll_def by (induction h arbitrary: dm) (auto simp: wellKeyed_placeEntry)

lemma keys_placeAll:
  "fst ` set (placeAll dm r h) = fst ` set dm \<union> (\<lambda>e. dateOf (timestamp e)) ` set h"
  unfolding placeAll_def by (induction h arbitrary: dm) (auto simp: keys_placeEntry)

lemma cellAt_placeAll:
  "cellAt (placeAll dm r h) d r' =
     (if r' = r \<and> filter (\<lambda>e. dateOf (timestamp e) = d) h \<noteq> []
      then Some (hprice (last (filter (\<lambda>e. dateOf (timestamp e) = d) h)))
      else cellAt dm d r')"
  unfolding placeAll_def
proof (induction h arbitrary: dm)
  case Nil
  show ?case by simp
next
  case (Cons e h)
  show ?case
    by (auto simp: Cons.IH cellAt_placeEntry)
qed

lemma buildDateMap_buildFrom: "buildDateMap H = buildFrom [] H"
  unfolding buildDateMap_def buildFrom_def placeAll_def ..

lemma wellKeyed_buildFrom: "wellKeyed dm \<Longrightarrow> wellKeyed (buildFrom dm H)"
  unfolding buildFrom_def by (induction H arbitrary: dm) (auto simp: wellKeyed_placeAll)

lemma buildFrom_Cons: "buildFrom dm ((r0, h) # H) = buildFrom (placeAll dm r0 h) H"
  by (simp add: buildFrom_def)

lemma observationDates_Cons:
  "observationDates ((r0, h) # H) = map (\<lambda>e. dateOf (timestamp e)) h @ observationDates H"
  by (simp add: observationDates_def)

lemma keys_buildFrom:
  "fst ` set (buildFrom dm H) = fst ` set dm \<union> set (observationDates H)"
proof (induction H arbitrary: dm)
  case Nil
  show ?case by (simp add: buildFrom_def observationDates_def)
next
  case (Cons p H)
  obtain r0 h where p: "p = (r0, h)" by (cases p)
  show ?case
    unfolding p buildFrom_Cons Cons.IH keys_placeAll observationDates_Cons by auto
qed

lemma observations_Cons:
  "observations ((r0, h) # H) r d =
     (if r0 = r then map hprice (filter (\<lambda>e. dateOf (timestamp e) = d) h) else []) @
     observations H r d"
  by (simp add: observations_def)

lemma cellAt_buildFrom:
  "cellAt (buildFrom dm H) d r =
     (if observations H r d = [] then cellAt dm d r else Some (last (observations H r d)))"
proof (induction H arbitrary: dm)
  case Nil
  show ?case by (simp add: buildFrom_def observations_def)
next
  case (Cons p H)
  obtain r0 h where p: "p = (r0, h)" by (cases p)
  show ?case
    unfolding p buildFrom_Cons Cons.IH observations_Cons cellAt_placeAll
    by (auto simp: last_map)
qed

lemma cellAt_buildDateMap: "cellAt (buildDateMap H) d r = observed H r d"
  unfolding buildDateMap_buildFrom cellAt_buildFrom observed_def
  by (simp add: cellAt_def split: list.splits)

lemma wellKeyed_buildDateMap: "wellKeyed (buildDateMap H)"
  unfolding buildDateMap_buildFrom by (rule wellKeyed_buildFrom) (simp add: wellKeyed_def)

lemma keys_buildDateMap: "fst ` set (buildDateMap H) = set (observationDates H)"
  unfolding buildDateMap_buildFrom keys_buildFrom by simp

subsection \<open>The fill-forward pass\<close>

lemma fillRow_snd: "snd (fillRow R lk rw) = rw\<lparr>cells := filledCells R lk rw\<rparr>"
proof (induction R arbitrary: lk rw)
  case Nil
  show ?case by (simp add: filledCells_def)
next
  case (Cons r R)
  show ?case
  proof (cases "cells rw r")
    case (Some v)
    have eq: "filledCells R (lk(r \<mapsto> v)) rw = filledCells (r # R) lk rw"
      using Some by (auto simp: filledCells_def fun_eq_iff split: option.splits)
    have "snd (fillRow (r # R) lk rw) = snd (fillRow R (lk(r \<mapsto> v)) rw)"
      using Some by simp
    also have "\<dots> = rw\<lparr>cells := filledCells R (lk(r \<mapsto> v)) rw\<rparr>"
      by (rule Cons.IH)
    finally show ?thesis by (simp only: eq)
  next
    case None
    show ?thesis
    proof (cases "lk r")
      case lkNone: None
      have eq: "filledCells R lk rw = filledCells (r # R) lk rw"
        using None lkNone by (auto simp: filledCells_def fun_eq_iff split: option.splits)
      have "snd (fillRow (r # R) lk rw) = snd (fillRow R lk rw)"
        using None lkNone by simp
      also have "\<dots> = rw\<lparr>cells := filledCells R lk rw\<rparr>"
        by (rule Cons.IH)
      finally show ?thesis by (simp only: eq)
    next
      case (Some v)
      let ?rw' = "rw\<lparr>cells := (cells rw)(r \<mapsto> v)\<rparr>"
      have eq: "filledCells R lk ?rw' = filledCells (r # R) lk rw"
        using None Some by (auto simp: filledCells_def fun_eq_iff split: option.splits)
      have "snd (fillRow (r # R) lk rw) = snd (fillRow R lk ?rw')"
        using None Some by simp
      also have "\<dots> = ?rw'\<lparr>cells := filledCells R lk ?rw'\<rparr>"
        by (rule Cons.IH)
      also have "\<dots> = rw\<lparr>cells := filledCells (r # R) lk rw\<rparr>"
        by (simp add: eq)
      finally show ?thesis .
    qed
  qed
qed

lemma fillRow_fst:
  "fst (fillRow R lk rw) r =
     (if r \<in> set R then (case cells rw r of Some v \<Rightarrow> Some v | None \<Rightarrow> lk r) else lk r)"
proof (induction R arbitrary: lk rw)
  case Nil
  show ?case by simp
next
  case (Cons x R)
  show ?case
    by (cases "cells rw x"; cases "lk x") (auto simp: Cons.IH split: option.splits)
qed

lemma fillForward_Cons:
  "fillForward R lk (rw # rws) =
     rw\<lparr>cells := filledCells R lk rw\<rparr> # fillForward R (fst (fillRow R lk rw)) rws"
  using fillRow_snd [of R lk rw] by (simp add: case_prod_beta)

lemma fillForward_char:
  "sorted_wrt (<) (map date rws) \<Longrightarrow>
     fillForward R lk rws =
       map (\<lambda>rw. rw\<lparr>cells := filledCells R (\<lambda>r. carried rws lk r (date rw)) rw\<rparr>) rws"
proof (induction rws arbitrary: lk)
  case Nil
  show ?case by simp
next
  case (Cons x xs)
  let ?lk' = "fst (fillRow R lk x)"
  from Cons.prems have later: "\<forall>rw \<in> set xs. date x < date rw" and sorted: "sorted_wrt (<) (map date xs)"
    by simp_all
  have head: "filledCells R (\<lambda>r. carried (x # xs) lk r (date x)) x = filledCells R lk x"
  proof -
    have "filter (\<lambda>rw. date rw < date x) (x # xs) = []"
      using later by (auto simp: filter_empty_conv)
    then show ?thesis by (simp add: carried_def)
  qed
  have tail: "filledCells R (\<lambda>r. carried (x # xs) lk r (date rw)) rw =
              filledCells R (\<lambda>r. carried xs ?lk' r (date rw)) rw" if "rw \<in> set xs" for rw
  proof -
    from that later have "date x < date rw" by simp
    then have "carried (x # xs) lk r (date rw) = carried xs ?lk' r (date rw)" if "r \<in> set R" for r
      using that by (simp add: carried_def fillRow_fst)
    then show ?thesis by (auto simp: filledCells_def fun_eq_iff split: option.splits)
  qed
  show ?case
    unfolding fillForward_Cons Cons.IH [OF sorted]
    using head tail by simp
qed

lemma lastSeen_snoc:
  "lastSeen init (cs @ [c]) = (case c of Some v \<Rightarrow> Some v | None \<Rightarrow> lastSeen init cs)"
  by (induction cs arbitrary: init) (auto split: option.splits)

lemma lastSeen_sorted:
  fixes ds :: "string list"
  assumes "sorted_wrt (<) ds"
  shows "(lastSeen None (map f (filter (\<lambda>d'. d' < d) ds)) = None \<longleftrightarrow>
            (\<forall>d' \<in> set ds. d' < d \<longrightarrow> f d' = None)) \<and>
         (\<forall>v. lastSeen None (map f (filter (\<lambda>d'. d' < d) ds)) = Some v \<longrightarrow>
            (\<exists>d' \<in> set ds. d' < d \<and> f d' = Some v \<and>
               (\<forall>d'' \<in> set ds. d' < d'' \<and> d'' < d \<longrightarrow> f d'' = None)))"
  using assms
proof (induction ds rule: rev_induct)
  case Nil
  show ?case by simp
next
  case (snoc x xs)
  from snoc.prems have sx: "sorted_wrt (<) xs" and below: "\<forall>y \<in> set xs. y < x"
    by (simp_all add: sorted_wrt_append)
  note IH = snoc.IH [OF sx]
  show ?case
  proof (cases "x < d")
    case False
    then have "filter (\<lambda>d'. d' < d) (xs @ [x]) = filter (\<lambda>d'. d' < d) xs" by simp
    with IH False show ?thesis by auto
  next
    case True
    then have f: "filter (\<lambda>d'. d' < d) (xs @ [x]) = filter (\<lambda>d'. d' < d) xs @ [x]" by simp
    show ?thesis
    proof (cases "f x")
      case None
      then have "lastSeen None (map f (filter (\<lambda>d'. d' < d) (xs @ [x]))) =
                 lastSeen None (map f (filter (\<lambda>d'. d' < d) xs))"
        unfolding f by (simp add: lastSeen_snoc)
      with IH None True show ?thesis by auto
    next
      case (Some w)
      then have l: "lastSeen None (map f (filter (\<lambda>d'. d' < d) (xs @ [x]))) = Some w"
        unfolding f by (simp add: lastSeen_snoc)
      have "\<forall>d'' \<in> set (xs @ [x]). x < d'' \<and> d'' < d \<longrightarrow> f d'' = None"
        using below by auto
      with l Some True show ?thesis by auto
    qed
  qed
qed

subsection \<open>The merged series, row by row\<close>

lemma map_of_wellKeyed:
  assumes "wellKeyed dm" "(d, rw) \<in> set dm"
  shows "map_of dm d = Some rw" "date rw = d"
  using assms by (auto simp: wellKeyed_def list_all_iff)

lemma dateMap_row:
  assumes "(d, rw) \<in> set (buildDateMap H)"
  shows "rw = \<lparr>date = d, cells = (\<lambda>r. observed H r d)\<rparr>"
proof -
  note m = map_of_wellKeyed [OF wellKeyed_buildDateMap assms]
  have "cells rw r = observed H r d" for r
    using cellAt_buildDateMap [of H d r] m(1) by (simp add: cellAt_def)
  then have "cells rw = (\<lambda>r. observed H r d)" by (rule ext)
  with m(2) show ?thesis by simp
qed

lemma map_snd_dateMap:
  "map snd (buildDateMap H) =
     map (\<lambda>d. \<lparr>date = d, cells = (\<lambda>r. observed H r d)\<rparr>) (map fst (buildDateMap H))"
proof -
  have "snd p = \<lparr>date = fst p, cells = (\<lambda>r. observed H r (fst p))\<rparr>"
    if "p \<in> set (buildDateMap H)" for p
    using dateMap_row [of "fst p" "snd p" H] that by simp
  then show ?thesis by (simp add: map_idI comp_def)
qed

lemma sort_key_map_mono:
  fixes g :: "string \<Rightarrow> row"
  assumes "\<And>d. date (g d) = d"
  shows "sort_key date (map g ds) = map g (sort ds)"
proof (induction ds)
  case Nil
  show ?case by simp
next
  case (Cons d ds)
  have ins: "insort_key date (g d) (map g xs) = map g (insort d xs)" for xs
    by (induction xs) (simp_all add: assms)
  show ?case by (simp add: Cons.IH ins)
qed

lemma sortedRows_aligned: "sortedRows (buildDateMap H) = alignedSeries H"
proof -
  let ?g = "\<lambda>d. \<lparr>date = d, cells = (\<lambda>r. observed H r d)\<rparr>"
  have d: "distinct (map fst (buildDateMap H))"
    using wellKeyed_buildDateMap [of H] by (simp add: wellKeyed_def)
  have "sortedRows (buildDateMap H) = map ?g (sort (map fst (buildDateMap H)))"
    unfolding sortedRows_def by (subst map_snd_dateMap) (rule sort_key_map_mono, simp)
  also have "sort (map fst (buildDateMap H)) = sorted_list_of_set (set (observationDates H))"
    using d keys_buildDateMap [of H]
    by (intro sorted_distinct_set_unique) simp_all
  finally show ?thesis by (simp add: alignedSeries_def)
qed

lemma observed_None_iff: "observed H r d = None \<longleftrightarrow> observations H r d = []"
  by (simp add: observed_def split: list.splits)

lemma observed_Some: "observations H r d \<noteq> [] \<Longrightarrow> observed H r d = Some (last (observations H r d))"
  by (simp add: observed_def split: list.splits)

lemma observations_retailer: "observations H r d \<noteq> [] \<Longrightarrow> r \<in> set (map fst H)"
proof (induction H)
  case Nil
  then show ?case by (simp add: observations_def)
next
  case (Cons p H)
  obtain r0 h where p: "p = (r0, h)" by (cases p)
  from Cons show ?case
    unfolding p observations_Cons by (auto split: if_splits)
qed

lemma observations_date: "observations H r d \<noteq> [] \<Longrightarrow> d \<in> set (observationDates H)"
proof (induction H)
  case Nil
  then show ?case by (simp add: observations_def)
next
  case (Cons p H)
  obtain r0 h where p: "p = (r0, h)" by (cases p)
  from Cons show ?case
    unfolding p observations_Cons observationDates_Cons
    by (auto simp: filter_empty_conv split: if_splits)
qed

lemma lastSeen_all_None: "\<forall>c \<in> set cs. c = None \<Longrightarrow> lastSeen None cs = None"
  by (induction cs) auto

lemma carried_aligned:
  "carried (alignedSeries H) Map.empty r d = carriedPrice H r d"
  unfolding carried_def carriedPrice_def alignedSeries_def sortedDates_def
  by (simp add: filter_map comp_def)

lemma carriedPrice_no_retailer: "r \<notin> set (map fst H) \<Longrightarrow> carriedPrice H r d = None"
  unfolding carriedPrice_def
  using observations_retailer [of H r] 
  by (intro lastSeen_all_None) (auto simp: observed_None_iff)

lemma merge_char:
  "mergePriceHistory H =
     map (\<lambda>d. \<lparr>date = d, cells = (\<lambda>r. case observed H r d of
                                        Some v \<Rightarrow> Some v | None \<Rightarrow> carriedPrice H r d)\<rparr>)
       (sortedDates H)"
proof (cases "H = []")
  case True
  then show ?thesis
    by (simp add: mergePriceHistory_def sortedDates_def observationDates_def)
next
  case False
  let ?F = "\<lambda>rw. rw\<lparr>cells := filledCells (map fst H)
        (\<lambda>r. carried (alignedSeries H) Map.empty r (date rw)) rw\<rparr>"
  let ?g = "\<lambda>d. \<lparr>date = d, cells = (\<lambda>r. observed H r d)\<rparr>"
  have s: "sorted_wrt (<) (map date (alignedSeries H))"
    by (simp add: alignedSeries_def comp_def)
  have cellsEq: "filledCells (map fst H) (\<lambda>r. carried (alignedSeries H) Map.empty r d)
          \<lparr>date = d, cells = (\<lambda>r. observed H r d)\<rparr> =
        (\<lambda>r. case observed H r d of Some v \<Rightarrow> Some v | None \<Rightarrow> carriedPrice H r d)" for d
  proof (rule ext)
    fix r
    show "filledCells (map fst H) (\<lambda>r. carried (alignedSeries H) Map.empty r d)
          \<lparr>date = d, cells = (\<lambda>r. observed H r d)\<rparr> r =
        (case observed H r d of Some v \<Rightarrow> Some v | None \<Rightarrow> carriedPrice H r d)"
    proof (cases "r \<in> set (map fst H)")
      case True
      then show ?thesis by (simp add: filledCells_def carried_aligned)
    next
      case False
      then have "observed H r d = None"
        using observations_retailer [of H r d] by (auto simp: observed_None_iff)
      with False show ?thesis
        by (simp add: filledCells_def carriedPrice_no_retailer)
    qed
  qed
  have "mergePriceHistory H = fillForward (map fst H) Map.empty (alignedSeries H)"
    using False by (simp add: mergePriceHistory_def sortedRows_aligned)
  also have "\<dots> = map ?F (alignedSeries H)"
    by (rule fillForward_char [OF s])
  also have "\<dots> = map ?F (map ?g (sortedDates H))"
    by (rule arg_cong [where f = "map ?F"]) (simp add: alignedSeries_def sortedDates_def)
  also have "\<dots> = map (\<lambda>d. ?F (?g d)) (sortedDates H)"
    by (simp only: map_map comp_def)
  also have "\<dots> = map (\<lambda>d. \<lparr>date = d, cells = (\<lambda>r. case observed H r d of
                                        Some v \<Rightarrow> Some v | None \<Rightarrow> carriedPrice H r d)\<rparr>)
       (sortedDates H)"
    by (rule arg_cong [where f = "\<lambda>k. map k (sortedDates H)"]) (rule ext, simp add: cellsEq)
  finally show ?thesis .
qed

lemma sortedDates_strict: "sorted_wrt (<) (sortedDates H)"
  by (simp add: sortedDates_def)

lemma set_sortedDates: "set (sortedDates H) = set (observationDates H)"
  by (simp add: sortedDates_def)

lemma merge_row:
  assumes "rw \<in> set (mergePriceHistory H)"
  shows "date rw \<in> set (observationDates H)"
    and "cells rw r = (case observed H r (date rw) of
                         Some v \<Rightarrow> Some v | None \<Rightarrow> carriedPrice H r (date rw))"
  using assms unfolding merge_char by (auto simp: set_sortedDates split: option.splits)

lemma merge_dates: "map date (mergePriceHistory H) = sortedDates H"
  unfolding merge_char by (simp add: comp_def)

lemma observed_dense:
  assumes "dense H" "d \<in> set (observationDates H)"
  shows "(case observed H r d of Some v \<Rightarrow> Some v | None \<Rightarrow> carriedPrice H r d) = observed H r d"
proof (cases "r \<in> set (map fst H)")
  case True
  with assms have "length (observations H r d) = 1"
    by (auto simp: dense_def list_all_iff)
  then have "observations H r d \<noteq> []" by auto
  then show ?thesis by (simp add: observed_Some)
next
  case False
  then have "observed H r d = None"
    using observations_retailer [of H r d] by (auto simp: observed_None_iff)
  with False show ?thesis by (simp add: carriedPrice_no_retailer)
qed

text \<open>
  C8.  A cell of the merged series for which the retailer has no observation on the row's
  date is filled only from the past: it stays missing exactly when the retailer has no
  observation on any strictly earlier date, and otherwise it holds the retailer's
  observation of the latest strictly earlier date that has one (no observation lies
  between that date and the row's date).
\<close>

theorem forward_fill_causal:
  assumes "rw \<in> set (mergePriceHistory H)" and "observations H r (date rw) = []"
  shows "(cells rw r = None \<longleftrightarrow> (\<forall>d'. d' < date rw \<longrightarrow> observations H r d' = [])) \<and>
         (\<forall>v. cells rw r = Some v \<longrightarrow>
            (\<exists>d'. d' < date rw \<and> observations H r d' \<noteq> [] \<and> v = last (observations H r d') \<and>
               (\<forall>d''. d' < d'' \<and> d'' < date rw \<longrightarrow> observations H r d'' = [])))"
proof -
  let ?d = "date rw"
  have c: "cells rw r = carriedPrice H r ?d"
    using merge_row(2) [OF assms(1), of r] assms(2) by (simp add: observed_None_iff [symmetric])
  note L = lastSeen_sorted [OF sortedDates_strict, of "\<lambda>d'. observed H r d'" ?d H]
  have outside: "observations H r d' = []" if "d' \<notin> set (sortedDates H)" for d'
    using that observations_date [of H r d'] by (auto simp: set_sortedDates)
  have none: "cells rw r = None \<longleftrightarrow> (\<forall>d'. d' < ?d \<longrightarrow> observations H r d' = [])"
  proof
    assume "cells rw r = None"
    with c L have "\<forall>d' \<in> set (sortedDates H). d' < ?d \<longrightarrow> observed H r d' = None"
      by (simp add: carriedPrice_def)
    then show "\<forall>d'. d' < ?d \<longrightarrow> observations H r d' = []"
      using outside by (auto simp: observed_None_iff)
  next
    assume "\<forall>d'. d' < ?d \<longrightarrow> observations H r d' = []"
    then have "\<forall>d' \<in> set (sortedDates H). d' < ?d \<longrightarrow> observed H r d' = None"
      by (simp add: observed_None_iff)
    with c L show "cells rw r = None" by (simp add: carriedPrice_def)
  qed
  have some: "\<exists>d'. d' < ?d \<and> observations H r d' \<noteq> [] \<and> v = last (observations H r d') \<and>
               (\<forall>d''. d' < d'' \<and> d'' < ?d \<longrightarrow> observations H r d'' = [])"
    if "cells rw r = Some v" for v
  proof -
    from that c L obtain d' where d': "d' \<in> set (sortedDates H)" "d' < ?d"
        "observed H r d' = Some v"
        "\<forall>d'' \<in> set (sortedDates H). d' < d'' \<and> d'' < ?d \<longrightarrow> observed H r d'' = None"
      unfolding carriedPrice_def by metis
    from d'(3) have ne: "observations H r d' \<noteq> []"
      using observed_None_iff [of H r d'] by auto
    with d'(3) have v: "v = last (observations H r d')" by (simp add: observed_Some)
    have "\<forall>d''. d' < d'' \<and> d'' < ?d \<longrightarrow> observations H r d'' = []"
      using d'(4) outside by (auto simp: observed_None_iff)
    with d'(2) ne v show ?thesis by blast
  qed
  from none some show ?thesis by blast
qed

theorem forward_fill_causal_witness:
  "mergePriceHistory gappyHistory ! 1 \<in> set (mergePriceHistory gappyHistory) \<and>
   date (mergePriceHistory gappyHistory ! 1) = ''2024-03-02'' \<and>
   observations gappyHistory ''A'' ''2024-03-02'' = [] \<and>
   cells (mergePriceHistory gappyHistory ! 1) ''A'' = Some 100 \<and>
   (\<exists>d'. d' < ''2024-03-02'' \<and> observations gappyHistory ''A'' d' \<noteq> [] \<and>
      100 = last (observations gappyHistory ''A'' d') \<and>
      (\<forall>d''. d' < d'' \<and> d'' < ''2024-03-02'' \<longrightarrow> observations gappyHistory ''A'' d'' = [])) \<and>
   cells (mergePriceHistory gappyHistory ! 0) ''B'' = None"
proof -
  have len: "length (mergePriceHistory gappyHistory) = 3"
    unfolding gappyHistory_def by code_simp
  then have mem: "mergePriceHistory gappyHistory ! 1 \<in> set (mergePriceHistory gappyHistory)"
    by simp
  have dt: "date (mergePriceHistory gappyHistory ! 1) = ''2024-03-02''"
    unfolding gappyHistory_def by code_simp
  have ob: "observations gappyHistory ''A'' ''2024-03-02'' = []"
    unfolding gappyHistory_def by code_simp
  have c: "cells (mergePriceHistory gappyHistory ! 1) ''A'' = Some 100"
    unfolding gappyHistory_def by code_simp
  have b: "cells (mergePriceHistory gappyHistory ! 0) ''B'' = None"
    unfolding gappyHistory_def by code_simp
  from ob dt have ob': "observations gappyHistory ''A''
      (date (mergePriceHistory gappyHistory ! 1)) = []" by simp
  from forward_fill_causal [OF mem ob'] c
  have "\<exists>d'. d' < date (mergePriceHistory gappyHistory ! 1) \<and>
      observations gappyHistory ''A'' d' \<noteq> [] \<and>
      100 = last (observations gappyHistory ''A'' d') \<and>
      (\<forall>d''. d' < d'' \<and> d'' < date (mergePriceHistory gappyHistory ! 1) \<longrightarrow>
         observations gappyHistory ''A'' d'' = [])"
    by blast
  then have "\<exists>d'. d' < ''2024-03-02'' \<and> observations gappyHistory ''A'' d' \<noteq> [] \<and>
      100 = last (observations gappyHistory ''A'' d') \<and>
      (\<forall>d''. d' < d'' \<and> d'' < ''2024-03-02'' \<longrightarrow> observations gappyHistory ''A'' d'' = [])"
    unfolding dt .
  with mem dt ob c b show ?thesis by blast
qed

text \<open>
  C9.  On a dense input (every retailer has exactly one observation on every observation
  date) the merger returns the date-aligned series of the input as it is: one row per
  date, dates ascending, every cell the observation of its retailer and date; the
  fill-forward pass changes nothing.
\<close>

theorem merge_dense_unchanged:
  assumes "dense H"
  shows "mergePriceHistory H = alignedSeries H \<and>
         sorted_wrt (<) (map date (mergePriceHistory H)) \<and>
         set (map date (mergePriceHistory H)) = set (observationDates H)"
proof -
  have "mergePriceHistory H = alignedSeries H"
    unfolding merge_char alignedSeries_def sortedDates_def
    using observed_dense [OF assms] by (intro map_cong refl) simp
  moreover have "sorted_wrt (<) (map date (mergePriceHistory H))"
    unfolding merge_dates by (rule sortedDates_strict)
  moreover have "set (map date (mergePriceHistory H)) = set (observationDates H)"
    unfolding merge_dates by (rule set_sortedDates)
  ultimately show ?thesis by blast
qed

theorem merge_dense_unchanged_witness:
  "dense denseHistory \<and> mergePriceHistory denseHistory = alignedSeries denseHistory \<and>
   map date (mergePriceHistory denseHistory) = [''2024-03-01'', ''2024-03-02''] \<and>
   cells (mergePriceHistory denseHistory ! 0) ''A'' = Some 105 \<and>
   cells (mergePriceHistory denseHistory ! 1) ''B'' = Some 95"
proof -
  have d: "dense denseHistory"
    unfolding denseHistory_def by code_simp
  have m: "map date (mergePriceHistory denseHistory) = [''2024-03-01'', ''2024-03-02'']"
    unfolding denseHistory_def by code_simp
  have a: "cells (mergePriceHistory denseHistory ! 0) ''A'' = Some 105"
    unfolding denseHistory_def by code_simp
  have b: "cells (mergePriceHistory denseHistory ! 1) ''B'' = Some 95"
    unfolding denseHistory_def by code_simp
  from merge_dense_unchanged [OF d] d m a b show ?thesis by blast
qed

text \<open>
  C10.  Where a retailer has an observation on a date, the merged series has a row for
  that date and the row holds the last observation placed for that retailer and date.
  The fill-forward pass writes to missing cells only: it keeps the rows and their dates,
  and every cell present before the pass has the same value after it.
\<close>

theorem observed_cells_kept:
  "(observations H r d \<noteq> [] \<longrightarrow>
      (\<exists>rw \<in> set (mergePriceHistory H). date rw = d) \<and>
      (\<forall>rw \<in> set (mergePriceHistory H). date rw = d \<longrightarrow>
         cells rw r = Some (last (observations H r d)))) \<and>
   length (mergePriceHistory H) = length (sortedRows (buildDateMap H)) \<and>
   (\<forall>i < length (mergePriceHistory H).
      date (mergePriceHistory H ! i) = date (sortedRows (buildDateMap H) ! i) \<and>
      (\<forall>r' v. cells (sortedRows (buildDateMap H) ! i) r' = Some v \<longrightarrow>
              cells (mergePriceHistory H ! i) r' = Some v))"
proof -
  have a: "(\<exists>rw \<in> set (mergePriceHistory H). date rw = d) \<and>
      (\<forall>rw \<in> set (mergePriceHistory H). date rw = d \<longrightarrow>
         cells rw r = Some (last (observations H r d)))" if ne: "observations H r d \<noteq> []"
  proof
    from ne have "d \<in> set (map date (mergePriceHistory H))"
      unfolding merge_dates set_sortedDates by (rule observations_date)
    then show "\<exists>rw \<in> set (mergePriceHistory H). date rw = d" by auto
    show "\<forall>rw \<in> set (mergePriceHistory H). date rw = d \<longrightarrow>
         cells rw r = Some (last (observations H r d))"
      using merge_row(2) [of _ H r] observed_Some [OF ne] by auto
  qed
  have l: "length (mergePriceHistory H) = length (sortedRows (buildDateMap H))"
    unfolding sortedRows_aligned merge_char by (simp add: alignedSeries_def sortedDates_def)
  have f: "date (mergePriceHistory H ! i) = date (sortedRows (buildDateMap H) ! i) \<and>
      (\<forall>r' v. cells (sortedRows (buildDateMap H) ! i) r' = Some v \<longrightarrow>
              cells (mergePriceHistory H ! i) r' = Some v)"
    if "i < length (mergePriceHistory H)" for i
  proof -
    from that have i: "i < length (sortedDates H)" by (simp add: merge_char)
    have al: "alignedSeries H = map (\<lambda>d. \<lparr>date = d, cells = (\<lambda>r. observed H r d)\<rparr>) (sortedDates H)"
      by (simp add: alignedSeries_def sortedDates_def)
    show ?thesis
      unfolding sortedRows_aligned al merge_char using i by simp
  qed
  from a l f show ?thesis by blast
qed

theorem observed_cells_kept_witness:
  "observations repeatedHistory ''A'' ''2024-03-01'' = [100, 102] \<and>
   (\<exists>rw \<in> set (mergePriceHistory repeatedHistory).
      date rw = ''2024-03-01'' \<and> cells rw ''A'' = Some 102) \<and>
   length (mergePriceHistory repeatedHistory) = 3 \<and>
   cells (sortedRows (buildDateMap repeatedHistory) ! 2) ''A'' = Some 99 \<and>
   cells (mergePriceHistory repeatedHistory ! 2) ''A'' = Some 99 \<and>
   cells (sortedRows (buildDateMap repeatedHistory) ! 2) ''B'' = None \<and>
   cells (mergePriceHistory repeatedHistory ! 2) ''B'' = Some 90"
proof -
  have o: "observations repeatedHistory ''A'' ''2024-03-01'' = [100, 102]"
    unfolding repeatedHistory_def by code_simp
  have len: "length (mergePriceHistory repeatedHistory) = 3"
    unfolding repeatedHistory_def by code_simp
  have s: "cells (sortedRows (buildDateMap repeatedHistory) ! 2) ''A'' = Some 99"
    unfolding repeatedHistory_def by code_simp
  have n: "cells (sortedRows (buildDateMap repeatedHistory) ! 2) ''B'' = None"
    unfolding repeatedHistory_def by code_simp
  have f: "cells (mergePriceHistory repeatedHistory ! 2) ''B'' = Some 90"
    unfolding repeatedHistory_def by code_simp
  note k = observed_cells_kept [of repeatedHistory "''A''" "''2024-03-01''"]
  from o have ne: "observations repeatedHistory ''A'' ''2024-03-01'' \<noteq> []" by simp
  from k ne o have e: "\<exists>rw \<in> set (mergePriceHistory repeatedHistory).
      date rw = ''2024-03-01'' \<and> cells rw ''A'' = Some 102"
    by fastforce
  from k len s have m: "cells (mergePriceHistory repeatedHistory ! 2) ''A'' = Some 99"
    by simp
  from o e len s m n f show ?thesis by blast
qed

end
